theory Spec2Isabelle
  imports Complex_Main
begin

section \<open>Data model of \<open>src/src/App.tsx\<close>\<close>

text \<open>
  The application is one React component whose state lives in ten \<open>useState\<close> cells.
  The cells become the fields of the record \<open>app_state\<close>; every handler of the component
  becomes a function from the state it closes over to the state after its setters ran.

  The interface fields \<open>id\<close>, \<open>from\<close> and \<open>to\<close> carry a prefix here, because \<open>id\<close> is
  the identity function of HOL and \<open>from\<close> is a keyword of the proof language.
  Coordinates are JavaScript numbers; they are modelled as reals, and nothing below
  depends on arithmetic over them.
\<close>

record Node =
  node_id :: string
  node_x :: real
  node_y :: real

record Edge =
  edge_from :: string
  edge_to :: string

text \<open>What \<open>addNode\<close> reads from the click and from the canvas element.\<close>

record MouseEvent =
  clientX :: real
  clientY :: real

record DOMRect =
  rect_left :: real
  rect_top :: real

record app_state =
  nodes :: "Node list"
  edges :: "Edge list"
  selectedNode :: "string option"
  visitedNodes :: "string list"
  currentQueue :: "string list"
  isRunning :: bool
  startNode :: "string option"
  explanation :: string
  isDarkMode :: bool
  isMuted :: bool

text \<open>The initial values of the \<open>useState\<close> cells (lines 23 to 32).\<close>

definition init_state :: app_state where
  "init_state =
     \<lparr>nodes = [], edges = [], selectedNode = None, visitedNodes = [], currentQueue = [],
      isRunning = False, startNode = None, explanation = [], isDarkMode = False,
      isMuted = True\<rparr>"

subsection \<open>JavaScript primitives used by the handlers\<close>

text \<open>
  \<open>!v\<close> for \<open>v : string | null\<close>: \<open>null\<close> and the empty string are falsy, every other
  string is truthy.
\<close>

definition js_not :: "string option \<Rightarrow> bool" where
  "js_not v = (case v of None \<Rightarrow> True | Some s \<Rightarrow> s = [])"

text \<open>
  The template literal \<open>`${n}`\<close> of a non-negative integer below \<open>10^21\<close> (an array length
  plus one is below \<open>2^32 + 1\<close>) is its decimal notation without leading zeros.
\<close>

definition digit_char :: "nat \<Rightarrow> char" where
  "digit_char d = ''0123456789'' ! d"

fun string_of_nat :: "nat \<Rightarrow> string" where
  "string_of_nat n =
     (if n < 10 then [digit_char n] else string_of_nat (n div 10) @ [digit_char (n mod 10)])"

declare string_of_nat.simps [simp del]

text \<open>Reading a decimal numeral back, the way \<open>Number(s)\<close> does on a string of digits.\<close>

definition digit_val :: "char \<Rightarrow> nat" where
  "digit_val c = of_char c - 48"

definition nat_of_string :: "string \<Rightarrow> nat" where
  "nat_of_string s = foldl (\<lambda>a c. 10 * a + digit_val c) 0 s"

text \<open>\<open>Array.prototype.join\<close> on an array of strings.\<close>

fun join :: "string \<Rightarrow> string list \<Rightarrow> string" where
  "join sep [] = []"
| "join sep [s] = s"
| "join sep (s # t # ts) = s @ sep @ join sep (t # ts)"

section \<open>The handlers\<close>

text \<open>\<open>resetVisualization\<close>, lines 102 to 108.\<close>

definition resetVisualization :: "app_state \<Rightarrow> app_state" where
  "resetVisualization st =
     st\<lparr>visitedNodes := [], currentQueue := [], isRunning := False, startNode := None,
        explanation := []\<rparr>"

text \<open>
  \<open>addNode\<close>, lines 110 to 122. The first argument is \<open>canvasRef.current\<close>: \<open>None\<close> while
  the canvas element is not mounted, else its bounding rectangle.
\<close>

definition addNode :: "DOMRect option \<Rightarrow> MouseEvent \<Rightarrow> app_state \<Rightarrow> app_state" where
  "addNode canvas e st =
     (case canvas of
        None \<Rightarrow> st
      | Some rect \<Rightarrow>
          let x = clientX e - rect_left rect;
              y = clientY e - rect_top rect;
              newNode = \<lparr>node_id = string_of_nat (length (nodes st) + 1), node_x = x, node_y = y\<rparr>
          in st\<lparr>nodes := nodes st @ [newNode]\<rparr>)"

text \<open>\<open>handleNodeClick\<close>, lines 124 to 139.\<close>

definition handleNodeClick :: "string \<Rightarrow> app_state \<Rightarrow> app_state" where
  "handleNodeClick nodeId st =
     (if \<not> isRunning st then
        (case selectedNode st of
           None \<Rightarrow> st\<lparr>selectedNode := Some nodeId\<rparr>
         | Some sel \<Rightarrow>
             if sel \<noteq> nodeId then
               st\<lparr>edges := edges st @ [\<lparr>edge_from = sel, edge_to = nodeId\<rparr>],
                  selectedNode := None\<rparr>
             else st\<lparr>selectedNode := None\<rparr>)
      else if js_not (startNode st) then
        st\<lparr>startNode := Some nodeId, visitedNodes := [nodeId], currentQueue := [nodeId]\<rparr>
      else st)"

text \<open>\<open>getNeighbors\<close>, lines 141 to 145.\<close>

definition getNeighbors :: "app_state \<Rightarrow> string \<Rightarrow> string list" where
  "getNeighbors st nodeId =
     map (\<lambda>edge. if edge_from edge = nodeId then edge_to edge else edge_from edge)
       (filter (\<lambda>edge. edge_from edge = nodeId \<or> edge_to edge = nodeId) (edges st))"

text \<open>
  \<open>performBFSStep\<close>, lines 147 to 160. \<open>currentQueue[0]\<close> is read only behind the guard
  on the length, and \<open>slice(1)\<close> is \<open>drop 1\<close>. Both setters get values computed from the
  state the handler closed over.
\<close>

definition performBFSStep :: "app_state \<Rightarrow> app_state" where
  "performBFSStep st =
     (if length (currentQueue st) = 0 \<or> js_not (startNode st) then st
      else
        let currentNode = currentQueue st ! 0;
            newQueue = drop 1 (currentQueue st);
            neighbors = getNeighbors st currentNode;
            unvisitedNeighbors = filter (\<lambda>neighbor. neighbor \<notin> set (visitedNodes st)) neighbors
        in st\<lparr>currentQueue := newQueue @ unvisitedNeighbors,
              visitedNodes := visitedNodes st @ unvisitedNeighbors\<rparr>)"

text \<open>
  The three remaining controls: the start/pause button (line 217, an inline
  \<open>setIsRunning(!isRunning)\<close>), \<open>toggleDarkMode\<close> (lines 49 to 51) and \<open>toggleMute\<close>
  (lines 53 to 62), whose argument says whether \<open>audioRef.current\<close> is set.
\<close>

definition toggleRunning :: "app_state \<Rightarrow> app_state" where
  "toggleRunning st = st\<lparr>isRunning := \<not> isRunning st\<rparr>"

definition toggleDarkMode :: "app_state \<Rightarrow> app_state" where
  "toggleDarkMode st = st\<lparr>isDarkMode := \<not> isDarkMode st\<rparr>"

definition toggleMute :: "bool \<Rightarrow> app_state \<Rightarrow> app_state" where
  "toggleMute audio st = (if audio then st\<lparr>isMuted := \<not> isMuted st\<rparr> else st)"

subsection \<open>Narration\<close>

text \<open>
  \<open>generateExplanation\<close>, lines 64 to 94. The chain \<open>getGenerativeModel\<close>,
  \<open>generateContent\<close>, \<open>response\<close>, \<open>text()\<close> belongs to an external library; it is the
  parameter \<open>api\<close>, from the prompt to either the exception thrown somewhere in the chain
  or the text returned. The function is asynchronous: it reads the state \<open>snap\<close> of the
  render that started it, and its one setter, \<open>setExplanation\<close>, acts on the state \<open>cur\<close>
  that is current when the promise settles. The \<open>console.error\<close> of the handler is output
  only and is left out.
\<close>

datatype js_exception = Exception string

definition fallback_text :: string where
  "fallback_text = ''Unable to generate explanation at this time.''"

definition prompt :: "app_state \<Rightarrow> string" where
  "prompt st =
     ''\<newline>      Explain this BFS traversal step by step:\<newline>      \<newline>      Graph Structure:\<newline>      Nodes: ''
     @ join '', '' (map node_id (nodes st))
     @ ''\<newline>      Edges: ''
     @ join '', '' (map (\<lambda>e. edge_from e @ ''->'' @ edge_to e) (edges st))
     @ ''\<newline>      \<newline>      BFS Progress:\<newline>      Current Queue: ''
     @ join '', '' (map (\<lambda>i. ''Node '' @ i) (currentQueue st))
     @ ''\<newline>      Visited Nodes: ''
     @ join '', '' (map (\<lambda>i. ''Node '' @ i) (visitedNodes st))
     @ ''\<newline>      \<newline>      Please explain:\<newline>      1. What has happened so far in the traversal\<newline>      2. What nodes are currently being considered\<newline>      3. What will likely happen in the next step\<newline>      Keep it concise and clear.\<newline>    ''"

definition generateExplanation ::
  "(string \<Rightarrow> js_exception + string) \<Rightarrow> app_state \<Rightarrow> app_state \<Rightarrow> app_state" where
  "generateExplanation api snap cur =
     (if length (visitedNodes snap) = 0 then cur
      else
        (case api (prompt snap) of
           Inr text \<Rightarrow> cur\<lparr>explanation := text\<rparr>
         | Inl error \<Rightarrow> cur\<lparr>explanation := fallback_text\<rparr>))"

subsection \<open>The wiring of the view\<close>

text \<open>
  What the markup and the effects connect to the handlers: a click on the canvas calls
  \<open>addNode\<close> (line 246); a click on a rendered node stops propagation and calls
  \<open>handleNodeClick\<close> with that node's identifier (lines 285 to 288), so only identifiers
  of existing nodes arrive there; the interval that calls \<open>performBFSStep\<close> exists only
  while \<open>isRunning\<close> holds and the queue is not empty (lines 162 to 168); the effect of
  lines 96 to 100 starts a narration only when something has been visited.
\<close>

datatype event =
    CanvasClick "DOMRect option" MouseEvent
  | NodeClick nat
  | StartPause
  | ResetClick
  | Tick
  | DarkModeClick
  | MuteClick bool
  | Narration "string \<Rightarrow> js_exception + string" app_state

fun dispatch :: "app_state \<Rightarrow> event \<Rightarrow> app_state" where
  "dispatch st (CanvasClick canvas e) = addNode canvas e st"
| "dispatch st (NodeClick i) =
     (if i < length (nodes st) then handleNodeClick (node_id (nodes st ! i)) st else st)"
| "dispatch st StartPause = toggleRunning st"
| "dispatch st ResetClick = resetVisualization st"
| "dispatch st Tick =
     (if isRunning st \<and> length (currentQueue st) > 0 then performBFSStep st else st)"
| "dispatch st DarkModeClick = toggleDarkMode st"
| "dispatch st (MuteClick audio) = toggleMute audio st"
| "dispatch st (Narration api snap) =
     (if length (visitedNodes snap) > 0 then generateExplanation api snap st else st)"

definition run :: "event list \<Rightarrow> app_state" where
  "run evs = foldl dispatch init_state evs"

text \<open>\<open>step()\<close> invoked \<open>k\<close> times in a row.\<close>

definition steps :: "nat \<Rightarrow> app_state \<Rightarrow> app_state" where
  "steps k st = (performBFSStep ^^ k) st"

section \<open>The step as the specification words it\<close>

text \<open>
  A second rendering of one step, written from the prose of the specification rather
  than from the code: walk the edge list in insertion order; an edge whose \<open>from\<close> is the
  current node yields its \<open>to\<close>, an edge whose \<open>to\<close> is the current node yields its
  \<open>from\<close>; keep what is not yet visited; append the survivors to the frontier without its
  head and to the visited sequence.
\<close>

fun neighbors_spec :: "Edge list \<Rightarrow> string \<Rightarrow> string list" where
  "neighbors_spec [] current = []"
| "neighbors_spec (e # es) current =
     (if edge_from e = current then edge_to e # neighbors_spec es current
      else if edge_to e = current then edge_from e # neighbors_spec es current
      else neighbors_spec es current)"

fun survivors :: "string list \<Rightarrow> string list \<Rightarrow> string list" where
  "survivors visited [] = []"
| "survivors visited (n # ns) =
     (if n \<in> set visited then survivors visited ns else n # survivors visited ns)"

definition step_spec :: "app_state \<Rightarrow> app_state" where
  "step_spec st =
     (case currentQueue st of
        [] \<Rightarrow> st
      | current # rest \<Rightarrow>
          let new = survivors (visitedNodes st) (neighbors_spec (edges st) current)
          in st\<lparr>currentQueue := rest @ new, visitedNodes := visitedNodes st @ new\<rparr>)"

section \<open>Two concrete graphs\<close>

definition click_at :: "real \<Rightarrow> real \<Rightarrow> event" where
  "click_at px py =
     CanvasClick (Some \<lparr>rect_left = 0, rect_top = 0\<rparr>) \<lparr>clientX = px, clientY = py\<rparr>"

text \<open>
  Four nodes and the edges 1-2, 1-3, 2-4 in that order, with the run switched on and no
  start node chosen yet; and a user session that draws exactly this.
\<close>

definition example_graph :: app_state where
  "example_graph =
     \<lparr>nodes =
        [\<lparr>node_id = ''1'', node_x = 10, node_y = 10\<rparr>, \<lparr>node_id = ''2'', node_x = 50, node_y = 10\<rparr>,
         \<lparr>node_id = ''3'', node_x = 10, node_y = 50\<rparr>, \<lparr>node_id = ''4'', node_x = 90, node_y = 10\<rparr>],
      edges =
        [\<lparr>edge_from = ''1'', edge_to = ''2''\<rparr>, \<lparr>edge_from = ''1'', edge_to = ''3''\<rparr>,
         \<lparr>edge_from = ''2'', edge_to = ''4''\<rparr>],
      selectedNode = None, visitedNodes = [], currentQueue = [], isRunning = True,
      startNode = None, explanation = [], isDarkMode = False, isMuted = True\<rparr>"

definition example_session :: "event list" where
  "example_session =
     [click_at 10 10, click_at 50 10, click_at 10 50, click_at 90 10,
      NodeClick 0, NodeClick 1, NodeClick 0, NodeClick 2, NodeClick 1, NodeClick 3,
      StartPause]"

text \<open>
  Two nodes joined twice: the user connects node 1 to node 2, connects them again, and
  switches the run on.
\<close>

definition double_edge_graph :: app_state where
  "double_edge_graph =
     \<lparr>nodes =
        [\<lparr>node_id = ''1'', node_x = 10, node_y = 10\<rparr>, \<lparr>node_id = ''2'', node_x = 50, node_y = 10\<rparr>],
      edges =
        [\<lparr>edge_from = ''1'', edge_to = ''2''\<rparr>, \<lparr>edge_from = ''1'', edge_to = ''2''\<rparr>],
      selectedNode = None, visitedNodes = [], currentQueue = [], isRunning = True,
      startNode = None, explanation = [], isDarkMode = False, isMuted = True\<rparr>"

definition double_edge_session :: "event list" where
  "double_edge_session =
     [click_at 10 10, click_at 50 10,
      NodeClick 0, NodeClick 1, NodeClick 0, NodeClick 1,
      StartPause]"

section \<open>Graph notions\<close>

text \<open>
  The undirected graph that the edge list denotes: two identifiers are adjacent when some
  edge joins them in either direction; the component of a node is what it reaches.
\<close>

definition adjacent :: "app_state \<Rightarrow> (string \<times> string) set" where
  "adjacent st =
     (\<Union>e \<in> set (edges st). {(edge_from e, edge_to e), (edge_to e, edge_from e)})"

definition component :: "app_state \<Rightarrow> string \<Rightarrow> string set" where
  "component st s = (adjacent st)\<^sup>* `` {s}"

text \<open>
  The invariant of the traversal from start node \<open>s\<close> on the graph of \<open>g\<close>, with \<open>popped\<close>
  the nodes already taken from the frontier: the visited sequence is the popped nodes
  followed by the frontier, it has no repetition and stays inside the component of \<open>s\<close>,
  and every neighbour of a popped node has been visited.
\<close>

definition bfs_inv :: "app_state \<Rightarrow> string \<Rightarrow> string list \<Rightarrow> app_state \<Rightarrow> bool" where
  "bfs_inv g s popped st \<longleftrightarrow>
     edges st = edges g \<and> \<not> js_not (startNode st) \<and>
     visitedNodes st = popped @ currentQueue st \<and>
     distinct (visitedNodes st) \<and>
     s \<in> set (visitedNodes st) \<and>
     set (visitedNodes st) \<subseteq> component g s \<and>
     (\<forall>u \<in> set popped. adjacent g `` {u} \<subseteq> set (visitedNodes st))"

section \<open>Evaluation lemmas\<close>

lemmas handler_defs = addNode_def handleNodeClick_def toggleRunning_def resetVisualization_def
  toggleDarkMode_def toggleMute_def

lemmas session_defs = run_def init_state_def click_at_def js_not_def Let_def
  string_of_nat.simps digit_char_def

lemma neighbors_spec_filter_map:
  "neighbors_spec es c =
     map (\<lambda>edge. if edge_from edge = c then edge_to edge else edge_from edge)
       (filter (\<lambda>edge. edge_from edge = c \<or> edge_to edge = c) es)"
  by (induction es) auto

lemma getNeighbors_eq: "getNeighbors st c = neighbors_spec (edges st) c"
  by (simp add: getNeighbors_def neighbors_spec_filter_map)

lemma survivors_filter: "survivors vs ns = filter (\<lambda>n. n \<notin> set vs) ns"
  by (induction ns) auto

lemma performBFSStep_Cons:
  assumes "currentQueue st = c # q" and "startNode st = Some (a # s)"
  shows "performBFSStep st =
    st\<lparr>currentQueue := q @ survivors (visitedNodes st) (neighbors_spec (edges st) c),
       visitedNodes := visitedNodes st @ survivors (visitedNodes st) (neighbors_spec (edges st) c)\<rparr>"
  using assms
  by (simp add: performBFSStep_def js_not_def Let_def getNeighbors_eq survivors_filter)

lemma performBFSStep_eval:
  assumes "currentQueue st \<noteq> []" and "\<not> js_not (startNode st)"
  shows "performBFSStep st =
    st\<lparr>currentQueue := tl (currentQueue st)
          @ survivors (visitedNodes st) (neighbors_spec (edges st) (hd (currentQueue st))),
       visitedNodes := visitedNodes st
          @ survivors (visitedNodes st) (neighbors_spec (edges st) (hd (currentQueue st)))\<rparr>"
  using assms
  by (cases "currentQueue st")
    (simp_all add: performBFSStep_def Let_def getNeighbors_eq survivors_filter drop_Suc)

lemma performBFSStep_Nil: "currentQueue st = [] \<Longrightarrow> performBFSStep st = st"
  by (simp add: performBFSStep_def)

lemma steps_0: "steps 0 st = st"
  by (simp add: steps_def)

lemma steps_Suc: "steps (Suc k) st = steps k (performBFSStep st)"
  by (simp add: steps_def funpow_swap1)

lemma steps_numeral: "steps (numeral n) st = steps (pred_numeral n) (performBFSStep st)"
  by (simp add: numeral_eq_Suc steps_Suc)

lemmas eval_simps = handleNodeClick_def js_not_def steps_numeral steps_0 steps_Suc
  performBFSStep_eval Let_def

lemma run_Nil: "run [] = init_state"
  by (simp add: run_def)

lemma run_snoc: "run (evs @ [e]) = dispatch (run evs) e"
  by (simp add: run_def)

lemma example_session_draws: "run example_session = example_graph"
  by (simp add: example_session_def session_defs handler_defs example_graph_def)

lemma double_edge_session_draws: "run double_edge_session = double_edge_graph"
  by (simp add: double_edge_session_def session_defs handler_defs double_edge_graph_def)

section \<open>The worked example\<close>

text \<open>
  Claim C3. On the graph with nodes 1, 2, 3, 4 and the edges 1-2, 1-3, 2-4 inserted in
  that order (which the session \<open>example_session\<close> draws), choosing node 1 as start gives
  visited = [1] and frontier = [1]; the first step gives visited = [1,2,3] and frontier =
  [2,3]; the second gives visited = [1,2,3,4] and frontier = [3,4]; the third gives
  frontier = [4]; the fourth gives the empty frontier.
\<close>

theorem example_trace:
  "run example_session = example_graph \<and>
   visitedNodes (handleNodeClick ''1'' example_graph) = [''1''] \<and>
   currentQueue (handleNodeClick ''1'' example_graph) = [''1''] \<and>
   visitedNodes (steps 1 (handleNodeClick ''1'' example_graph)) = [''1'', ''2'', ''3''] \<and>
   currentQueue (steps 1 (handleNodeClick ''1'' example_graph)) = [''2'', ''3''] \<and>
   visitedNodes (steps 2 (handleNodeClick ''1'' example_graph)) = [''1'', ''2'', ''3'', ''4''] \<and>
   currentQueue (steps 2 (handleNodeClick ''1'' example_graph)) = [''3'', ''4''] \<and>
   currentQueue (steps 3 (handleNodeClick ''1'' example_graph)) = [''4''] \<and>
   currentQueue (steps 4 (handleNodeClick ''1'' example_graph)) = []"
  by (simp add: example_session_draws) (simp add: example_graph_def eval_simps)

section \<open>One step against the wording of the specification\<close>

text \<open>
  Claim C4. When the frontier is not empty and a start node is set, one step pops the
  head of the frontier, collects its neighbours over the edge list in insertion order
  (either endpoint matches and yields the other one), drops the neighbours already
  visited, and appends the rest, in that order, to the frontier without its head and to
  the visited sequence: the handler computes exactly \<open>step_spec\<close>.
\<close>

theorem step_refines_spec:
  assumes "currentQueue st \<noteq> []" and "startNode st = Some s" and "s \<noteq> []"
  shows "performBFSStep st = step_spec st"
proof -
  obtain c q where q: "currentQueue st = c # q"
    using assms(1) by (cases "currentQueue st") auto
  obtain a s' where s: "startNode st = Some (a # s')"
    using assms(2,3) by (cases s) auto
  show ?thesis
    by (simp add: performBFSStep_Cons[OF q s] step_spec_def q Let_def)
qed

text \<open>The theorem at the first step of the worked example.\<close>

theorem step_refines_spec_witness:
  "performBFSStep (handleNodeClick ''1'' example_graph) =
     step_spec (handleNodeClick ''1'' example_graph) \<and>
   currentQueue (step_spec (handleNodeClick ''1'' example_graph)) = [''2'', ''3'']"
proof -
  let ?s = "handleNodeClick ''1'' example_graph"
  have "currentQueue ?s \<noteq> []" and "startNode ?s = Some ''1''" and "''1'' \<noteq> []"
    by (simp_all add: example_graph_def eval_simps)
  then have "performBFSStep ?s = step_spec ?s"
    by (rule step_refines_spec)
  moreover have "currentQueue (step_spec ?s) = [''2'', ''3'']"
    by (simp add: step_spec_def example_graph_def eval_simps)
  ultimately show ?thesis by simp
qed

section \<open>Choosing the start node\<close>

text \<open>
  Claim C5. While the run is switched on, a click on a node is \<open>setStart\<close>. It is
  accepted exactly when the guard \<open>!startNode\<close> passes, that is when no start node has
  been chosen (\<open>null\<close>, or the empty string, which no node carries); it then sets the
  start node, makes the visited sequence the one-element sequence of the clicked node and
  the frontier the same, and leaves every other cell alone. With a start node already
  chosen the click changes nothing.
\<close>

theorem setStart_initialises:
  assumes "isRunning st"
  shows "(startNode st = None \<or> startNode st = Some [] \<longrightarrow>
           handleNodeClick s st =
             st\<lparr>startNode := Some s, visitedNodes := [s], currentQueue := [s]\<rparr>) \<and>
         (\<forall>t. startNode st = Some t \<and> t \<noteq> [] \<longrightarrow> handleNodeClick s st = st)"
  using assms by (auto simp: handleNodeClick_def js_not_def)

theorem setStart_initialises_witness:
  "visitedNodes (handleNodeClick ''3'' example_graph) = [''3''] \<and>
   currentQueue (handleNodeClick ''3'' example_graph) = [''3''] \<and>
   startNode (handleNodeClick ''3'' example_graph) = Some ''3'' \<and>
   handleNodeClick ''2'' (handleNodeClick ''3'' example_graph) = handleNodeClick ''3'' example_graph"
proof -
  have r: "isRunning example_graph" and n: "startNode example_graph = None"
    by (simp_all add: example_graph_def)
  have first: "handleNodeClick ''3'' example_graph =
      example_graph\<lparr>startNode := Some ''3'', visitedNodes := [''3''], currentQueue := [''3'']\<rparr>"
    using setStart_initialises[OF r, of "''3''"] n by simp
  have "isRunning (handleNodeClick ''3'' example_graph)"
    by (simp add: first r)
  from setStart_initialises[OF this, of "''2''"]
  have "handleNodeClick ''2'' (handleNodeClick ''3'' example_graph) =
      handleNodeClick ''3'' example_graph"
    by (simp add: first)
  then show ?thesis by (simp add: first)
qed

section \<open>A step outside its precondition\<close>

text \<open>
  Claim C6. In every state whose frontier is empty or in which no start node is set, a
  step returns the state it was given: visited sequence, frontier and every other cell
  are unchanged. The handler has no \<open>throw\<close> and reads \<open>currentQueue[0]\<close> only behind the
  guard, so there is no branch that signals an error.
\<close>

theorem step_noop:
  assumes "currentQueue st = [] \<or> startNode st = None \<or> startNode st = Some []"
  shows "performBFSStep st = st"
  using assms by (auto simp: performBFSStep_def js_not_def)

theorem step_noop_witness:
  "performBFSStep example_graph = example_graph \<and>
   performBFSStep (steps 4 (handleNodeClick ''1'' example_graph)) =
     steps 4 (handleNodeClick ''1'' example_graph)"
proof -
  have "startNode example_graph = None"
    by (simp add: example_graph_def)
  then have a: "performBFSStep example_graph = example_graph"
    using step_noop[of example_graph] by simp
  have "currentQueue (steps 4 (handleNodeClick ''1'' example_graph)) = []"
    by (simp add: example_graph_def eval_simps)
  then have "performBFSStep (steps 4 (handleNodeClick ''1'' example_graph)) =
     steps 4 (handleNodeClick ''1'' example_graph)"
    using step_noop[of "steps 4 (handleNodeClick ''1'' example_graph)"] by simp
  with a show ?thesis by simp
qed

section \<open>Drawing edges\<close>

text \<open>
  Claim C7. While the run is switched off and a node \<open>p\<close> is pending, a click on another
  node \<open>n\<close> appends the one edge from \<open>p\<close> to \<open>n\<close> and clears the pending selection; a
  click on \<open>p\<close> itself adds no edge and clears the pending selection; the node list is the
  same in both cases.
\<close>

theorem second_click_while_editing:
  assumes "\<not> isRunning st" and "selectedNode st = Some p"
  shows "(n \<noteq> p \<longrightarrow>
            handleNodeClick n st =
              st\<lparr>edges := edges st @ [\<lparr>edge_from = p, edge_to = n\<rparr>], selectedNode := None\<rparr>) \<and>
         (n = p \<longrightarrow> handleNodeClick n st = st\<lparr>selectedNode := None\<rparr>) \<and>
         selectedNode (handleNodeClick n st) = None \<and>
         nodes (handleNodeClick n st) = nodes st"
  using assms by (auto simp: handleNodeClick_def)

theorem second_click_while_editing_witness:
  "edges (handleNodeClick ''2'' (init_state\<lparr>selectedNode := Some ''1''\<rparr>)) =
     [\<lparr>edge_from = ''1'', edge_to = ''2''\<rparr>] \<and>
   edges (handleNodeClick ''1'' (init_state\<lparr>selectedNode := Some ''1''\<rparr>)) = [] \<and>
   selectedNode (handleNodeClick ''2'' (init_state\<lparr>selectedNode := Some ''1''\<rparr>)) = None \<and>
   selectedNode (handleNodeClick ''1'' (init_state\<lparr>selectedNode := Some ''1''\<rparr>)) = None"
proof -
  let ?st = "init_state\<lparr>selectedNode := Some ''1''\<rparr>"
  have e: "\<not> isRunning ?st" and p: "selectedNode ?st = Some ''1''" and es: "edges ?st = []"
    by (simp_all add: init_state_def)
  from second_click_while_editing[OF e p, of "''2''"] second_click_while_editing[OF e p, of "''1''"]
  show ?thesis by (simp add: init_state_def)
qed

section \<open>Narration\<close>

text \<open>
  Claim C9. If the narration call raises an exception, the explanation shown becomes
  exactly the fixed fallback string; and whether the call fails or succeeds, nodes, edges,
  visited sequence, frontier, start node and running flag are what they were: only the
  explanation cell can differ.
\<close>

theorem narration_failure_fallback:
  "(visitedNodes snap \<noteq> [] \<and> api (prompt snap) = Inl e \<longrightarrow>
      explanation (generateExplanation api snap cur) =
        ''Unable to generate explanation at this time.'') \<and>
   nodes (generateExplanation api snap cur) = nodes cur \<and>
   edges (generateExplanation api snap cur) = edges cur \<and>
   visitedNodes (generateExplanation api snap cur) = visitedNodes cur \<and>
   currentQueue (generateExplanation api snap cur) = currentQueue cur \<and>
   startNode (generateExplanation api snap cur) = startNode cur \<and>
   isRunning (generateExplanation api snap cur) = isRunning cur \<and>
   (generateExplanation api snap cur)\<lparr>explanation := explanation cur\<rparr> = cur"
  by (auto simp: generateExplanation_def fallback_text_def split: sum.splits)

theorem narration_failure_fallback_witness:
  "explanation (generateExplanation (\<lambda>p. Inl (Exception ''network''))
      (handleNodeClick ''1'' example_graph) (steps 1 (handleNodeClick ''1'' example_graph))) =
        ''Unable to generate explanation at this time.'' \<and>
   currentQueue (generateExplanation (\<lambda>p. Inl (Exception ''network''))
      (handleNodeClick ''1'' example_graph) (steps 1 (handleNodeClick ''1'' example_graph))) =
        [''2'', ''3'']"
proof -
  have v: "visitedNodes (handleNodeClick ''1'' example_graph) \<noteq> []"
    by (simp add: example_graph_def eval_simps)
  have q: "currentQueue (steps 1 (handleNodeClick ''1'' example_graph)) = [''2'', ''3'']"
    by (simp add: example_graph_def eval_simps)
  show ?thesis
    using v q narration_failure_fallback[of "handleNodeClick ''1'' example_graph"
        "\<lambda>p. Inl (Exception ''network'')" "Exception ''network''"
        "steps 1 (handleNodeClick ''1'' example_graph)"]
    by simp
qed

section \<open>The frontier stays within the visited sequence\<close>

lemma handleNodeClick_frontier:
  "set (currentQueue st) \<subseteq> set (visitedNodes st) \<Longrightarrow>
   set (currentQueue (handleNodeClick n st)) \<subseteq> set (visitedNodes (handleNodeClick n st))"
  by (auto simp: handleNodeClick_def split: option.splits)

lemma performBFSStep_frontier:
  "set (currentQueue st) \<subseteq> set (visitedNodes st) \<Longrightarrow>
   set (currentQueue (performBFSStep st)) \<subseteq> set (visitedNodes (performBFSStep st))"
  by (auto simp: performBFSStep_def Let_def dest: in_set_dropD)

lemma resetVisualization_frontier:
  "set (currentQueue (resetVisualization st)) \<subseteq> set (visitedNodes (resetVisualization st))"
  by (simp add: resetVisualization_def)

lemma dispatch_frontier:
  assumes "set (currentQueue st) \<subseteq> set (visitedNodes st)"
  shows "set (currentQueue (dispatch st ev)) \<subseteq> set (visitedNodes (dispatch st ev))"
proof (cases ev)
  case (NodeClick i)
  then show ?thesis using assms handleNodeClick_frontier by simp
next
  case Tick
  then show ?thesis using assms performBFSStep_frontier by simp
next
  case ResetClick
  then show ?thesis using resetVisualization_frontier by simp
qed (use assms in \<open>auto simp: addNode_def toggleRunning_def toggleDarkMode_def toggleMute_def
      generateExplanation_def Let_def split: option.splits sum.splits\<close>)

lemma run_frontier: "set (currentQueue (run evs)) \<subseteq> set (visitedNodes (run evs))"
proof (induction evs rule: rev_induct)
  case Nil
  show ?case by (simp add: run_Nil init_state_def)
next
  case (snoc e evs)
  then show ?case by (simp add: run_snoc dispatch_frontier)
qed

lemma performBFSStep_appends:
  "\<exists>new.
     currentQueue (performBFSStep st) =
       (if currentQueue st = [] \<or> startNode st = None \<or> startNode st = Some []
        then currentQueue st else drop 1 (currentQueue st)) @ new \<and>
     visitedNodes (performBFSStep st) = visitedNodes st @ new \<and>
     set new \<inter> set (visitedNodes st) = {}"
proof (cases "currentQueue st = [] \<or> startNode st = None \<or> startNode st = Some []")
  case True
  then have "performBFSStep st = st"
    by (auto simp: performBFSStep_def js_not_def)
  with True show ?thesis by simp
next
  case False
  then have g: "\<not> (length (currentQueue st) = 0 \<or> js_not (startNode st))"
    by (auto simp: js_not_def split: option.splits)
  define new where
    "new = filter (\<lambda>neighbor. neighbor \<notin> set (visitedNodes st))
       (getNeighbors st (currentQueue st ! 0))"
  have "performBFSStep st =
      st\<lparr>currentQueue := drop 1 (currentQueue st) @ new, visitedNodes := visitedNodes st @ new\<rparr>"
    using g by (simp add: performBFSStep_def Let_def new_def)
  moreover have "set new \<inter> set (visitedNodes st) = {}"
    by (auto simp: new_def)
  ultimately show ?thesis
    using False by auto
qed

lemma handleNodeClick_frontier_visited:
  "(isRunning st \<and> (startNode st = None \<or> startNode st = Some []) \<longrightarrow>
      currentQueue (handleNodeClick n st) = [n] \<and> visitedNodes (handleNodeClick n st) = [n]) \<and>
   (\<not> (isRunning st \<and> (startNode st = None \<or> startNode st = Some [])) \<longrightarrow>
      currentQueue (handleNodeClick n st) = currentQueue st \<and>
      visitedNodes (handleNodeClick n st) = visitedNodes st)"
  by (auto simp: handleNodeClick_def js_not_def split: option.splits)

lemma resetVisualization_clears:
  "currentQueue (resetVisualization st) = [] \<and> visitedNodes (resetVisualization st) = []"
  by (simp add: resetVisualization_def)

text \<open>
  Claim C10. If every element of the frontier occurs in the visited sequence, this still
  holds after a click on a node (\<open>setStart\<close> included), after a step and after a reset.
  Nodes enter the frontier only together with entering the visited sequence: a step
  appends one and the same list \<open>new\<close> to the frontier (without its head when the guard
  passes) and to the visited sequence, and nothing in \<open>new\<close> was visited before; a click
  either makes both sequences the one clicked node or changes neither; a reset empties
  both. Popping the frontier removes nothing from the visited sequence, which a step only
  extends.
\<close>

theorem frontier_within_visited:
  assumes "set (currentQueue st) \<subseteq> set (visitedNodes st)"
  shows "set (currentQueue (handleNodeClick n st)) \<subseteq> set (visitedNodes (handleNodeClick n st)) \<and>
         set (currentQueue (performBFSStep st)) \<subseteq> set (visitedNodes (performBFSStep st)) \<and>
         set (currentQueue (resetVisualization st)) \<subseteq> set (visitedNodes (resetVisualization st)) \<and>
         set (visitedNodes st) \<subseteq> set (visitedNodes (performBFSStep st)) \<and>
         (\<exists>new.
            currentQueue (performBFSStep st) =
              (if currentQueue st = [] \<or> startNode st = None \<or> startNode st = Some []
               then currentQueue st else drop 1 (currentQueue st)) @ new \<and>
            visitedNodes (performBFSStep st) = visitedNodes st @ new \<and>
            set new \<inter> set (visitedNodes st) = {}) \<and>
         (isRunning st \<and> (startNode st = None \<or> startNode st = Some []) \<longrightarrow>
            currentQueue (handleNodeClick n st) = [n] \<and>
            visitedNodes (handleNodeClick n st) = [n]) \<and>
         (\<not> (isRunning st \<and> (startNode st = None \<or> startNode st = Some [])) \<longrightarrow>
            currentQueue (handleNodeClick n st) = currentQueue st \<and>
            visitedNodes (handleNodeClick n st) = visitedNodes st) \<and>
         currentQueue (resetVisualization st) = [] \<and>
         visitedNodes (resetVisualization st) = []"
proof -
  have "set (visitedNodes st) \<subseteq> set (visitedNodes (performBFSStep st))"
    using performBFSStep_appends[of st] by auto
  then show ?thesis
    using handleNodeClick_frontier[OF assms, of n] performBFSStep_frontier[OF assms]
      resetVisualization_frontier[of st] performBFSStep_appends[of st]
      handleNodeClick_frontier_visited[of st n] resetVisualization_clears[of st]
    by blast
qed

theorem frontier_within_visited_witness:
  "set (currentQueue (performBFSStep (handleNodeClick ''1'' example_graph))) \<subseteq>
     set (visitedNodes (performBFSStep (handleNodeClick ''1'' example_graph))) \<and>
   currentQueue (performBFSStep (handleNodeClick ''1'' example_graph)) = [''2'', ''3''] \<and>
   (\<exists>new. currentQueue (performBFSStep (handleNodeClick ''1'' example_graph)) = [] @ new \<and>
      visitedNodes (performBFSStep (handleNodeClick ''1'' example_graph)) = [''1''] @ new)"
proof -
  let ?s = "handleNodeClick ''1'' example_graph"
  have s: "currentQueue ?s = [''1'']" "visitedNodes ?s = [''1'']" "startNode ?s = Some ''1''"
    by (simp_all add: example_graph_def eval_simps)
  have "set (currentQueue ?s) \<subseteq> set (visitedNodes ?s)"
    by (simp add: s)
  from frontier_within_visited[OF this, of "''1''"]
  have "set (currentQueue (performBFSStep ?s)) \<subseteq> set (visitedNodes (performBFSStep ?s))"
    and "\<exists>new. currentQueue (performBFSStep ?s) = [] @ new \<and>
      visitedNodes (performBFSStep ?s) = [''1''] @ new"
    by (simp_all add: s) blast
  moreover have "currentQueue (performBFSStep ?s) = [''2'', ''3'']"
    by (simp add: example_graph_def eval_simps)
  ultimately show ?thesis by simp
qed

section \<open>Node identifiers\<close>

lemma digit_val_digit_char: "d < 10 \<Longrightarrow> digit_val (digit_char d) = d"
proof -
  assume "d < 10"
  then consider "d = 0" | "d = 1" | "d = 2" | "d = 3" | "d = 4" | "d = 5" | "d = 6" | "d = 7"
    | "d = 8" | "d = 9"
    by atomize_elim arith
  then show ?thesis
    by cases (simp_all add: digit_val_def digit_char_def)
qed

lemma nat_of_string_snoc: "nat_of_string (s @ [c]) = 10 * nat_of_string s + digit_val c"
  by (simp add: nat_of_string_def)

lemma nat_of_string_of_nat: "nat_of_string (string_of_nat n) = n"
proof (induction n rule: string_of_nat.induct)
  case (1 n)
  show ?case
  proof (cases "n < 10")
    case True
    then show ?thesis
      by (subst string_of_nat.simps) (simp add: nat_of_string_def digit_val_digit_char)
  next
    case False
    then have "nat_of_string (string_of_nat n) =
        10 * nat_of_string (string_of_nat (n div 10)) + digit_val (digit_char (n mod 10))"
      by (subst string_of_nat.simps) (simp add: nat_of_string_snoc)
    also have "\<dots> = 10 * (n div 10) + n mod 10"
      using False by (simp add: "1.IH" digit_val_digit_char)
    finally show ?thesis by simp
  qed
qed

lemma inj_string_of_nat: "inj string_of_nat"
  by (rule inj_on_inverseI[where g = nat_of_string]) (simp add: nat_of_string_of_nat)

lemma addNode_nodes:
  "nodes (addNode (Some rect) e st) =
     nodes st @ [\<lparr>node_id = string_of_nat (length (nodes st) + 1),
       node_x = clientX e - rect_left rect, node_y = clientY e - rect_top rect\<rparr>]"
  by (simp add: addNode_def Let_def)

lemma dispatch_nodes:
  "nodes (dispatch st ev) = nodes st \<or>
   (\<exists>px py. nodes (dispatch st ev) =
      nodes st @ [\<lparr>node_id = string_of_nat (length (nodes st) + 1), node_x = px, node_y = py\<rparr>])"
  by (cases ev)
    (auto simp: handler_defs performBFSStep_def generateExplanation_def Let_def
      split: option.splits sum.splits)

lemma run_node_ids:
  "map node_id (nodes (run evs)) = map string_of_nat [1..<Suc (length (nodes (run evs)))]"
proof (induction evs rule: rev_induct)
  case Nil
  show ?case by (simp add: run_Nil init_state_def)
next
  case (snoc ev evs)
  from dispatch_nodes[of "run evs" ev] show ?case
  proof
    assume "nodes (dispatch (run evs) ev) = nodes (run evs)"
    then show ?thesis using snoc by (simp add: run_snoc)
  next
    assume "\<exists>px py. nodes (dispatch (run evs) ev) =
      nodes (run evs) @ [\<lparr>node_id = string_of_nat (length (nodes (run evs)) + 1), node_x = px, node_y = py\<rparr>]"
    then show ?thesis using snoc by (auto simp: run_snoc)
  qed
qed

text \<open>
  Claim C8. After any sequence of user events from the initial state, the identifiers of
  the nodes, in creation order, are the decimal numerals of 1, 2, ..., up to the number of
  nodes: read as numbers they count up from 1, they are pairwise distinct, and a further
  click on the mounted canvas appends one node whose identifier is the numeral of the
  next number. No event removes a node.
\<close>

theorem node_ids_sequential:
  "map node_id (nodes (run evs)) = map string_of_nat [1..<Suc (length (nodes (run evs)))] \<and>
   map (nat_of_string \<circ> node_id) (nodes (run evs)) = [1..<Suc (length (nodes (run evs)))] \<and>
   distinct (map node_id (nodes (run evs))) \<and>
   nodes (dispatch (run evs) (CanvasClick (Some rect) e)) =
     nodes (run evs) @ [\<lparr>node_id = string_of_nat (length (nodes (run evs)) + 1),
       node_x = clientX e - rect_left rect, node_y = clientY e - rect_top rect\<rparr>]"
proof -
  have ids: "map node_id (nodes (run evs)) = map string_of_nat [1..<Suc (length (nodes (run evs)))]"
    by (rule run_node_ids)
  have "map (nat_of_string \<circ> node_id) (nodes (run evs)) =
      map nat_of_string (map node_id (nodes (run evs)))"
    by simp
  also have "\<dots> = map (nat_of_string \<circ> string_of_nat) [1..<Suc (length (nodes (run evs)))]"
    by (simp only: ids map_map)
  also have "\<dots> = [1..<Suc (length (nodes (run evs)))]"
    by (simp add: comp_def nat_of_string_of_nat)
  finally have vals: "map (nat_of_string \<circ> node_id) (nodes (run evs)) =
      [1..<Suc (length (nodes (run evs)))]" .
  have "distinct (map string_of_nat [1..<Suc (length (nodes (run evs)))])"
    by (simp add: distinct_map inj_on_subset[OF inj_string_of_nat])
  then have "distinct (map node_id (nodes (run evs)))"
    by (simp only: ids)
  with ids vals show ?thesis
    by (simp add: addNode_nodes)
qed

section \<open>The graph of the edge list\<close>

lemma adjacent_iff:
  "(u, v) \<in> adjacent st \<longleftrightarrow>
     (\<exists>e \<in> set (edges st). (edge_from e = u \<and> edge_to e = v) \<or> (edge_to e = u \<and> edge_from e = v))"
  by (auto simp: adjacent_def)

lemma set_neighbors_spec: "set (neighbors_spec es c) =
    {v. \<exists>e \<in> set es. (edge_from e = c \<and> edge_to e = v) \<or> (edge_to e = c \<and> edge_from e = v)}"
  by (induction es) auto

lemma set_getNeighbors: "set (getNeighbors st c) = adjacent st `` {c}"
  by (auto simp: getNeighbors_eq set_neighbors_spec adjacent_iff)

lemma component_start: "s \<in> component st s"
  by (simp add: component_def)

lemma component_step: "u \<in> component st s \<Longrightarrow> (u, v) \<in> adjacent st \<Longrightarrow> v \<in> component st s"
  by (auto simp: component_def intro: rtrancl_into_rtrancl)

lemma component_least:
  assumes "s \<in> S" and "\<And>u v. u \<in> S \<Longrightarrow> (u, v) \<in> adjacent st \<Longrightarrow> v \<in> S"
  shows "component st s \<subseteq> S"
proof
  fix x
  assume "x \<in> component st s"
  then have "(s, x) \<in> (adjacent st)\<^sup>*"
    by (simp add: component_def)
  then show "x \<in> S"
    by (induction rule: rtrancl_induct) (use assms in auto)
qed

lemma finite_component: "finite (component st s)"
proof -
  have "component st s \<subseteq> insert s (edge_from ` set (edges st) \<union> edge_to ` set (edges st))"
    by (rule component_least) (auto simp: adjacent_iff)
  then show ?thesis
    by (rule finite_subset) simp
qed

lemma double_edge_component: "component double_edge_graph ''1'' = {''1'', ''2''}"
proof
  show "component double_edge_graph ''1'' \<subseteq> {''1'', ''2''}"
    by (rule component_least) (auto simp: adjacent_iff double_edge_graph_def)
  have "(''1'', ''2'') \<in> adjacent double_edge_graph"
    by (simp add: adjacent_iff double_edge_graph_def)
  then have "''2'' \<in> component double_edge_graph ''1''"
    using component_start component_step by blast
  then show "{''1'', ''2''} \<subseteq> component double_edge_graph ''1''"
    by (simp add: component_start)
qed

section \<open>An edge drawn twice\<close>

text \<open>
  Claim C2 says that no identifier occurs twice in the visited sequence, whatever the
  graph and the sequence of operations. The session \<open>double_edge_session\<close> draws the edge
  from node 1 to node 2 twice; after the start at node 1, one step makes the visited
  sequence [1, 2, 2]: the filter of the step looks only at what was visited before the
  step, so a neighbour listed twice passes twice.
\<close>

theorem double_edge_visited_twice:
  "run double_edge_session = double_edge_graph \<and>
   visitedNodes (performBFSStep (handleNodeClick ''1'' double_edge_graph)) = [''1'', ''2'', ''2''] \<and>
   \<not> distinct (visitedNodes (run (double_edge_session @ [NodeClick 0, Tick])))"
proof -
  have v: "visitedNodes (performBFSStep (handleNodeClick ''1'' double_edge_graph)) =
      [''1'', ''2'', ''2'']"
    by (simp add: double_edge_graph_def eval_simps)
  have "run (double_edge_session @ [NodeClick 0, Tick]) =
      dispatch (dispatch double_edge_graph (NodeClick 0)) Tick"
    by (simp add: run_def double_edge_session_draws[unfolded run_def])
  also have "\<dots> = performBFSStep (handleNodeClick ''1'' double_edge_graph)"
    by (simp add: double_edge_graph_def handleNodeClick_def js_not_def)
  finally show ?thesis
    by (simp add: v double_edge_session_draws)
qed

text \<open>
  Claim C1 says that on a graph all of whose nodes are reachable from the start node the
  frontier is empty after at most as many steps as there are nodes. On the graph with the
  doubled edge both nodes are reachable from node 1 and there are two nodes, yet the
  frontier is [1], then [2, 2], then [2], and is empty only after the third step.
\<close>

theorem double_edge_needs_three_steps:
  "run double_edge_session = double_edge_graph \<and>
   set (map node_id (nodes double_edge_graph)) = component double_edge_graph ''1'' \<and>
   length (nodes double_edge_graph) = 2 \<and>
   currentQueue (steps 0 (handleNodeClick ''1'' double_edge_graph)) = [''1''] \<and>
   currentQueue (steps 1 (handleNodeClick ''1'' double_edge_graph)) = [''2'', ''2''] \<and>
   currentQueue (steps 2 (handleNodeClick ''1'' double_edge_graph)) = [''2''] \<and>
   currentQueue (steps 3 (handleNodeClick ''1'' double_edge_graph)) = []"
proof -
  have "set (map node_id (nodes double_edge_graph)) = {''1'', ''2''}"
    by (simp add: double_edge_graph_def)
  then have "set (map node_id (nodes double_edge_graph)) = component double_edge_graph ''1''"
    by (simp only: double_edge_component)
  moreover have "length (nodes double_edge_graph) = 2"
    by (simp add: double_edge_graph_def)
  moreover have "currentQueue (steps 0 (handleNodeClick ''1'' double_edge_graph)) = [''1'']"
    "currentQueue (steps 1 (handleNodeClick ''1'' double_edge_graph)) = [''2'', ''2'']"
    "currentQueue (steps 2 (handleNodeClick ''1'' double_edge_graph)) = [''2'']"
    "currentQueue (steps 3 (handleNodeClick ''1'' double_edge_graph)) = []"
    by (simp_all add: double_edge_graph_def eval_simps)
  ultimately show ?thesis by (simp add: double_edge_session_draws)
qed

section \<open>Graphs in which no neighbour is listed twice\<close>

text \<open>
  The doubled edge is the only obstacle. When \<open>getNeighbors\<close> never lists a node twice
  (no edge was drawn twice, in either direction), the traversal from a start node keeps
  the invariant \<open>bfs_inv\<close>: each step with a non-empty frontier pops one node, so after as
  many steps as the component has nodes the frontier is empty, the visited sequence holds
  exactly the component, and it never repeats a node.
\<close>

lemma bfs_invD:
  assumes "bfs_inv g s p st"
  shows "edges st = edges g" and "\<not> js_not (startNode st)"
    and "visitedNodes st = p @ currentQueue st" and "distinct (visitedNodes st)"
    and "s \<in> set (visitedNodes st)" and "set (visitedNodes st) \<subseteq> component g s"
    and "\<And>u. u \<in> set p \<Longrightarrow> adjacent g `` {u} \<subseteq> set (visitedNodes st)"
  using assms unfolding bfs_inv_def by blast+

lemma getNeighbors_cong: "edges st = edges g \<Longrightarrow> getNeighbors st c = getNeighbors g c"
  by (simp add: getNeighbors_def)

lemma bfs_inv_start:
  assumes "isRunning g" and "js_not (startNode g)" and "s \<noteq> []"
  shows "bfs_inv g s [] (handleNodeClick s g)"
  using assms by (simp add: bfs_inv_def handleNodeClick_def js_not_def component_start)

lemma bfs_inv_step:
  assumes inv: "bfs_inv g s p st"
    and dist: "distinct (getNeighbors g c)"
    and q: "currentQueue st = c # q"
  shows "bfs_inv g s (p @ [c]) (performBFSStep st)"
proof -
  define new where "new = filter (\<lambda>n. n \<notin> set (visitedNodes st)) (getNeighbors g c)"
  note e = bfs_invD(1)[OF inv] and t = bfs_invD(2)[OF inv] and d = bfs_invD(4)[OF inv]
    and s = bfs_invD(5)[OF inv] and sub = bfs_invD(6)[OF inv] and cl = bfs_invD(7)[OF inv]
  have v: "visitedNodes st = p @ c # q"
    using bfs_invD(3)[OF inv] q by simp
  have step: "performBFSStep st =
      st\<lparr>currentQueue := q @ new, visitedNodes := visitedNodes st @ new\<rparr>"
    using q t by (simp add: performBFSStep_def Let_def new_def getNeighbors_cong[OF e])
  have nb: "set new = adjacent g `` {c} - set (visitedNodes st)"
    by (auto simp: new_def set_getNeighbors)
  have "c \<in> set (visitedNodes st)"
    by (simp add: v)
  then have "c \<in> component g s"
    using sub by blast
  then have new_sub: "set new \<subseteq> component g s"
    using nb component_step by blast
  have "distinct new"
    using dist by (simp add: new_def)
  then have d': "distinct (visitedNodes st @ new)"
    using d nb by auto
  have cl': "adjacent g `` {u} \<subseteq> set (visitedNodes st @ new)" if "u \<in> set (p @ [c])" for u
  proof (cases "u = c")
    case True
    then show ?thesis using nb by auto
  next
    case False
    then have "u \<in> set p" using that by simp
    then show ?thesis using cl[of u] by auto
  qed
  have "edges (performBFSStep st) = edges g"
    by (simp add: step e)
  moreover have "\<not> js_not (startNode (performBFSStep st))"
    by (simp add: step t)
  moreover have "visitedNodes (performBFSStep st) = (p @ [c]) @ currentQueue (performBFSStep st)"
    by (simp add: step v)
  moreover have "distinct (visitedNodes (performBFSStep st))"
    using d' by (simp add: step)
  moreover have "s \<in> set (visitedNodes (performBFSStep st))"
    using s by (simp add: step)
  moreover have "set (visitedNodes (performBFSStep st)) \<subseteq> component g s"
    using sub new_sub by (simp add: step)
  moreover have "\<forall>u \<in> set (p @ [c]). adjacent g `` {u} \<subseteq> set (visitedNodes (performBFSStep st))"
    using cl' by (simp add: step)
  ultimately show ?thesis
    unfolding bfs_inv_def by blast
qed

lemma bfs_inv_steps:
  assumes inv: "bfs_inv g s p st" and dist: "\<And>c. distinct (getNeighbors g c)"
  shows "\<exists>p'. bfs_inv g s p' (steps k st) \<and>
           (currentQueue (steps k st) = [] \<or> length p' = length p + k)"
proof (induction k)
  case 0
  show ?case using inv by (auto simp: steps_0)
next
  case (Suc k)
  then obtain p' where p': "bfs_inv g s p' (steps k st)"
    and len: "currentQueue (steps k st) = [] \<or> length p' = length p + k"
    by blast
  show ?case
  proof (cases "currentQueue (steps k st)")
    case Nil
    then have "steps (Suc k) st = steps k st"
      by (simp add: steps_def performBFSStep_Nil)
    with p' Nil show ?thesis by auto
  next
    case (Cons c q)
    have "bfs_inv g s (p' @ [c]) (steps (Suc k) st)"
      using bfs_inv_step[OF p' dist Cons] by (simp add: steps_def)
    moreover have "length (p' @ [c]) = length p + Suc k"
      using len Cons by simp
    ultimately show ?thesis by blast
  qed
qed

lemma steps_add: "steps (a + b) st = steps b (steps a st)"
  by (induction a arbitrary: st) (simp_all add: steps_0 steps_Suc)

lemma steps_empty: "currentQueue st = [] \<Longrightarrow> steps k st = st"
  by (induction k) (simp_all add: steps_0 steps_Suc performBFSStep_Nil)

lemma bfs_inv_card:
  assumes "bfs_inv g s p st"
  shows "length p + length (currentQueue st) \<le> card (component g s)"
proof -
  have "length p + length (currentQueue st) = length (visitedNodes st)"
    by (simp add: bfs_invD(3)[OF assms])
  also have "\<dots> = card (set (visitedNodes st))"
    using bfs_invD(4)[OF assms] by (simp add: distinct_card)
  also have "\<dots> \<le> card (component g s)"
    using bfs_invD(6)[OF assms] by (intro card_mono finite_component)
  finally show ?thesis .
qed

lemma bfs_inv_finished:
  assumes "bfs_inv g s p st" and "currentQueue st = []"
  shows "set (visitedNodes st) = component g s"
proof
  show "set (visitedNodes st) \<subseteq> component g s"
    by (rule bfs_invD(6)[OF assms(1)])
  have vp: "visitedNodes st = p"
    using bfs_invD(3)[OF assms(1)] assms(2) by simp
  show "component g s \<subseteq> set (visitedNodes st)"
  proof (rule component_least)
    show "s \<in> set (visitedNodes st)"
      by (rule bfs_invD(5)[OF assms(1)])
  next
    fix u v
    assume "u \<in> set (visitedNodes st)" and uv: "(u, v) \<in> adjacent g"
    then have "u \<in> set p"
      by (simp add: vp)
    from bfs_invD(7)[OF assms(1) this] uv show "v \<in> set (visitedNodes st)"
      by blast
  qed
qed

lemma bfs_without_repeated_neighbours:
  assumes run: "isRunning g" and fresh: "js_not (startNode g)" and s: "s \<noteq> []"
    and dist: "\<And>c. distinct (getNeighbors g c)"
    and k: "card (component g s) \<le> k"
  shows "currentQueue (steps k (handleNodeClick s g)) = []"
    and "set (visitedNodes (steps k (handleNodeClick s g))) = component g s"
    and "distinct (visitedNodes (steps j (handleNodeClick s g)))"
proof -
  let ?s0 = "handleNodeClick s g"
  let ?n = "card (component g s)"
  have inv0: "bfs_inv g s [] ?s0"
    using run fresh s by (rule bfs_inv_start)
  obtain p where p: "bfs_inv g s p (steps ?n ?s0)"
    and len: "currentQueue (steps ?n ?s0) = [] \<or> length p = ?n"
    using bfs_inv_steps[OF inv0 dist, of ?n] by auto
  have empty: "currentQueue (steps ?n ?s0) = []"
    using len bfs_inv_card[OF p] by auto
  have "steps k ?s0 = steps (k - ?n) (steps ?n ?s0)"
    using k steps_add[of ?n "k - ?n" ?s0] by simp
  then have same: "steps k ?s0 = steps ?n ?s0"
    by (simp add: steps_empty[OF empty])
  show "currentQueue (steps k ?s0) = []"
    by (simp add: same empty)
  show "set (visitedNodes (steps k ?s0)) = component g s"
    unfolding same using p empty by (rule bfs_inv_finished)
  obtain p' where "bfs_inv g s p' (steps j ?s0)"
    using bfs_inv_steps[OF inv0 dist, of j] by auto
  then show "distinct (visitedNodes (steps j ?s0))"
    by (rule bfs_invD(4))
qed

lemma bfs_connected:
  assumes "isRunning g" and "js_not (startNode g)" and "s \<noteq> []"
    and "\<And>c. distinct (getNeighbors g c)"
    and "component g s = node_id ` set (nodes g)"
  shows "currentQueue (steps (length (nodes g)) (handleNodeClick s g)) = []"
    and "set (visitedNodes (steps (length (nodes g)) (handleNodeClick s g))) = component g s"
proof -
  have "card (component g s) \<le> length (nodes g)"
    using assms(5) by (metis card_image_le card_length le_trans List.finite_set)
  from bfs_without_repeated_neighbours(1,2)[OF assms(1-4) this]
  show "currentQueue (steps (length (nodes g)) (handleNodeClick s g)) = []"
    and "set (visitedNodes (steps (length (nodes g)) (handleNodeClick s g))) = component g s"
    by simp_all
qed

text \<open>
  The worked example is such a graph: all four nodes are reachable from node 1, no
  neighbour is listed twice, and four steps empty the frontier.
\<close>

lemma example_graph_neighbours: "distinct (getNeighbors example_graph c)"
  by (auto simp: getNeighbors_def example_graph_def)

lemma example_graph_component:
  "component example_graph ''1'' = node_id ` set (nodes example_graph)"
proof
  show "component example_graph ''1'' \<subseteq> node_id ` set (nodes example_graph)"
    by (rule component_least) (auto simp: adjacent_iff example_graph_def)
  have a: "(''1'', ''2'') \<in> adjacent example_graph" "(''1'', ''3'') \<in> adjacent example_graph"
    "(''2'', ''4'') \<in> adjacent example_graph"
    by (simp_all add: adjacent_iff example_graph_def)
  have "''2'' \<in> component example_graph ''1''" and "''3'' \<in> component example_graph ''1''"
    using a(1,2) component_start component_step by blast+
  moreover from this(1) a(3) have "''4'' \<in> component example_graph ''1''"
    by (rule component_step)
  ultimately show "node_id ` set (nodes example_graph) \<subseteq> component example_graph ''1''"
    by (simp add: example_graph_def component_start)
qed

lemma example_graph_traversal:
  "currentQueue (steps (length (nodes example_graph)) (handleNodeClick ''1'' example_graph)) = [] \<and>
   set (visitedNodes (steps (length (nodes example_graph)) (handleNodeClick ''1'' example_graph))) =
     {''1'', ''2'', ''3'', ''4''}"
proof -
  have r: "isRunning example_graph" and f: "js_not (startNode example_graph)"
    by (simp_all add: example_graph_def js_not_def)
  have ids: "node_id ` set (nodes example_graph) = {''1'', ''2'', ''3'', ''4''}"
    by (simp add: example_graph_def)
  have s: "''1'' \<noteq> []"
    by simp
  from bfs_connected[OF r f s example_graph_neighbours example_graph_component]
  show ?thesis
    by (simp only: example_graph_component ids)
qed

end
